theory Spec2Isabelle
  imports Complex_Main "HOL-Library.Word"
begin

section \<open>Data model\<close>

text \<open>
  A \<open>Chromosome\<close> wraps a \<open>boost::dynamic_bitset\<close>: a sequence of bits with a length.
  \<open>Chromosome::Couple\<close> is a pair of parents (\<open>couple.first\<close>, \<open>couple.second\<close>), and a
  hypothesis is a pair of a chromosome and its rank (\<open>best.first\<close>, \<open>best.second\<close>).
  \<open>size_t\<close> is a 64-bit unsigned integer.
\<close>

type_synonym Chromosome = "bool list"
type_synonym Couple = "Chromosome \<times> Chromosome"
type_synonym size_t = "64 word"
type_synonym 'r Hypothesis = "Chromosome \<times> 'r"

text \<open>
  The C++ code has no recoverable errors. What it leaves undefined (an index outside a
  bitset, \<open>top\<close> of an empty population, a violated precondition) and what a functor may
  throw are values of \<open>error\<close>; every function that can reach one returns
  \<open>error + result\<close>.
\<close>

datatype error =
    OutOfRange
  | EmptyPopulation
  | PreconditionViolated
  | FunctorThrew nat

text \<open>
  The functors are \<open>const\<close> objects with \<open>mutable\<close> generator state. A functor is a
  function that takes the state of the operator objects and returns the new one with its
  result; \<open>'s\<close> is that state. The rank functor has no state, and the rank type \<open>T\<close>
  is any linear order (for the default \<open>float\<close>: ranks that are not NaN).
\<close>

type_synonym 's InitializerFunctor = "'s \<Rightarrow> error + (Chromosome \<times> 's)"
type_synonym ('r, 's) SelectionFunctor =
  "'r Hypothesis list \<Rightarrow> size_t \<Rightarrow> 's \<Rightarrow> error + (Couple list \<times> 's)"
type_synonym 's CrossOverFunctor = "Chromosome \<Rightarrow> Chromosome \<Rightarrow> 's \<Rightarrow> error + (Chromosome \<times> 's)"
type_synonym 's MutationFunctor = "Chromosome \<Rightarrow> 's \<Rightarrow> error + (Chromosome \<times> 's)"
type_synonym 'r RankFunctor = "Chromosome \<Rightarrow> 'r"

section \<open>Population\<close>

text \<open>
  Modelled from the spec: the class \<open>Population\<close>. \<open>population.h\<close> is not among the
  sources; \<open>solve\<close> uses its constructor and \<open>init\<close>, \<open>push\<close>, \<open>top\<close>, \<open>select\<close> and
  \<open>reset\<close>, which follow sections 3 and 4.2 of the specification: an ordered collection
  of hypotheses bound to one rank functor.
\<close>

record 'r Population =
  rank_func :: "'r RankFunctor"
  hypotheses :: "'r Hypothesis list"

definition Population_new :: "'r RankFunctor \<Rightarrow> 'r Population" where
  \<comment> \<open>Modelled from the spec: the constructor of \<open>Population\<close> (population.h is missing):
      created empty and bound to a Rank operator.\<close>
  "Population_new rank = \<lparr>rank_func = rank, hypotheses = []\<rparr>"

definition Population_push :: "'r Population \<Rightarrow> Chromosome \<Rightarrow> 'r Population" where
  \<comment> \<open>Modelled from the spec: \<open>Population::push\<close> (population.h is missing): scores the
      genotype with the bound Rank operator and inserts the hypothesis; no deduplication.\<close>
  "Population_push p g = p\<lparr>hypotheses := hypotheses p @ [(g, rank_func p g)]\<rparr>"

fun first_max :: "'r::linorder Hypothesis \<Rightarrow> 'r Hypothesis list \<Rightarrow> 'r Hypothesis" where
  \<comment> \<open>Modelled from the spec: the member of maximal rank, ties broken by encounter order,
      first-seen wins (population.h is missing).\<close>
  "first_max m [] = m"
| "first_max m (h # hs) = first_max (if snd m < snd h then h else m) hs"

definition Population_top :: "'r::linorder Population \<Rightarrow> error + 'r Hypothesis" where
  \<comment> \<open>Modelled from the spec: \<open>Population::top\<close> (population.h is missing): the hypothesis
      with maximal rank among the current members; fails or is undefined on an empty
      population.\<close>
  "Population_top p =
     (case hypotheses p of
        [] \<Rightarrow> Inl EmptyPopulation
      | h # hs \<Rightarrow> Inr (first_max h hs))"

definition Population_select ::
  "'r Population \<Rightarrow> ('r, 's) SelectionFunctor \<Rightarrow> size_t \<Rightarrow> 's \<Rightarrow> error + (Couple list \<times> 's)" where
  \<comment> \<open>Modelled from the spec: \<open>Population::select\<close> (population.h is missing): delegates to
      the Selection operator with the full set of hypotheses and the requested count, and
      returns what Selection produces.\<close>
  "Population_select p select_func count s = select_func (hypotheses p) count s"

definition Population_reset :: "'r Population \<Rightarrow> 'r Population" where
  \<comment> \<open>Modelled from the spec: \<open>Population::reset\<close> (population.h is missing): empties the
      member collection and keeps the Rank operator binding.\<close>
  "Population_reset p = p\<lparr>hypotheses := []\<rparr>"

fun init_loop ::
  "nat \<Rightarrow> 's InitializerFunctor \<Rightarrow> 'r Population \<Rightarrow> 's \<Rightarrow> error + ('r Population \<times> 's)" where
  \<comment> \<open>Modelled from the spec: the loop of \<open>Population::init\<close> (population.h is missing):
      one Initializer call per member, each result scored and inserted.\<close>
  "init_loop 0 init_func p s = Inr (p, s)"
| "init_loop (Suc k) init_func p s =
     (case init_func s of
        Inl e \<Rightarrow> Inl e
      | Inr (g, s1) \<Rightarrow> init_loop k init_func (Population_push p g) s1)"

definition Population_init ::
  "'r Population \<Rightarrow> 's InitializerFunctor \<Rightarrow> size_t \<Rightarrow> 's \<Rightarrow> error + ('r Population \<times> 's)" where
  \<comment> \<open>Modelled from the spec: \<open>Population::init\<close> (population.h is missing): calls the
      Initializer exactly \<open>n\<close> times; requires the population to be empty and \<open>n \<ge> 1\<close>.\<close>
  "Population_init p init_func n s =
     (case hypotheses p of
        [] \<Rightarrow> (if n = 0 then Inl PreconditionViolated else init_loop (unat n) init_func p s)
      | h # hs \<Rightarrow> Inl PreconditionViolated)"

section \<open>The solver\<close>

text \<open>
  The local variables of \<open>solve\<close> that live across the iterations of its loop:
  the populations \<open>current\<close> and \<open>next\<close> and the hypothesis \<open>best\<close>.
\<close>

record 'r solve_state =
  current :: "'r Population"
  next_gen :: "'r Population"
  best :: "'r Hypothesis"

text \<open>
  The inner loop of \<open>solve\<close>: for each couple, in order,
  \<open>next.push(mutate_func(cross_over_func(couple.first, couple.second)))\<close>.
\<close>

fun push_children ::
  "'s CrossOverFunctor \<Rightarrow> 's MutationFunctor \<Rightarrow> Couple list \<Rightarrow> 'r Population \<Rightarrow> 's
     \<Rightarrow> error + ('r Population \<times> 's)" where
  "push_children cross_over_func mutate_func [] nxt s = Inr (nxt, s)"
| "push_children cross_over_func mutate_func (couple # rest) nxt s =
     (case cross_over_func (fst couple) (snd couple) s of
        Inl e \<Rightarrow> Inl e
      | Inr (child, s1) \<Rightarrow>
          (case mutate_func child s1 of
             Inl e \<Rightarrow> Inl e
           | Inr (mutant, s2) \<Rightarrow>
               push_children cross_over_func mutate_func rest (Population_push nxt mutant) s2))"

text \<open>
  The body of the loop of \<open>solve\<close> (one generation): select \<open>population_size - 1\<close> couples
  (a subtraction of \<open>size_t\<close>), fill \<open>next\<close> with their children, swap \<open>current\<close> and
  \<open>next\<close>, reset \<open>next\<close>, replace \<open>best\<close> if \<open>best.second < current.top().second\<close>, and push
  \<open>best.first\<close> into \<open>current\<close>.
\<close>

definition solve_generation ::
  "size_t \<Rightarrow> ('r::linorder, 's) SelectionFunctor \<Rightarrow> 's CrossOverFunctor \<Rightarrow> 's MutationFunctor
     \<Rightarrow> 'r solve_state \<Rightarrow> 's \<Rightarrow> error + ('r solve_state \<times> 's)" where
  "solve_generation population_size select_func cross_over_func mutate_func st s =
     (case Population_select (current st) select_func (population_size - 1) s of
        Inl e \<Rightarrow> Inl e
      | Inr (couples, s1) \<Rightarrow>
          (case push_children cross_over_func mutate_func couples (next_gen st) s1 of
             Inl e \<Rightarrow> Inl e
           | Inr (filled, s2) \<Rightarrow>
               (let cur = filled;
                    nxt = Population_reset (current st)
                in case Population_top cur of
                     Inl e \<Rightarrow> Inl e
                   | Inr t \<Rightarrow>
                       (let b = (if snd (best st) < snd t then t else best st)
                        in Inr (\<lparr>current = Population_push cur (fst b),
                                 next_gen = nxt,
                                 best = b\<rparr>, s2)))))"

text \<open>The loop \<open>for (size_t i=0; i<num_iterations; ++i)\<close>, by the iterations left.\<close>

fun solve_loop ::
  "nat \<Rightarrow> size_t \<Rightarrow> ('r::linorder, 's) SelectionFunctor \<Rightarrow> 's CrossOverFunctor \<Rightarrow> 's MutationFunctor
     \<Rightarrow> 'r solve_state \<Rightarrow> 's \<Rightarrow> error + ('r solve_state \<times> 's)" where
  "solve_loop 0 population_size select_func cross_over_func mutate_func st s = Inr (st, s)"
| "solve_loop (Suc k) population_size select_func cross_over_func mutate_func st s =
     (case solve_generation population_size select_func cross_over_func mutate_func st s of
        Inl e \<Rightarrow> Inl e
      | Inr (st1, s1) \<Rightarrow>
          solve_loop k population_size select_func cross_over_func mutate_func st1 s1)"

text \<open>
  The statements of \<open>solve\<close> before its loop: the two populations, \<open>current.init\<close> and
  \<open>best = current.top()\<close>.
\<close>

definition solve_seed ::
  "size_t \<Rightarrow> 's InitializerFunctor \<Rightarrow> 'r::linorder RankFunctor \<Rightarrow> 's
     \<Rightarrow> error + ('r solve_state \<times> 's)" where
  "solve_seed population_size init_func rank_f s =
     (case Population_init (Population_new rank_f) init_func population_size s of
        Inl e \<Rightarrow> Inl e
      | Inr (cur, s0) \<Rightarrow>
          (case Population_top cur of
             Inl e \<Rightarrow> Inl e
           | Inr b \<Rightarrow> Inr (\<lparr>current = cur, next_gen = Population_new rank_f, best = b\<rparr>, s0)))"

text \<open>
  \<open>solve\<close>: the seeding, \<open>num_iterations\<close> generations, and \<open>return best.first\<close>. The
  result comes with the state the operator objects are left in. The parameter
  \<open>verbosity\<close> is not used by the body and is left out.
\<close>

definition solve ::
  "size_t \<Rightarrow> size_t \<Rightarrow> 's InitializerFunctor \<Rightarrow> ('r::linorder, 's) SelectionFunctor
     \<Rightarrow> 's CrossOverFunctor \<Rightarrow> 's MutationFunctor \<Rightarrow> 'r RankFunctor \<Rightarrow> 's
     \<Rightarrow> error + (Chromosome \<times> 's)" where
  "solve num_iterations population_size init_func select_func cross_over_func mutate_func rank_f s =
     (case solve_seed population_size init_func rank_f s of
        Inl e \<Rightarrow> Inl e
      | Inr (st0, s0) \<Rightarrow>
          (case solve_loop (unat num_iterations) population_size select_func cross_over_func
                  mutate_func st0 s0 of
             Inl e \<Rightarrow> Inl e
           | Inr (st, s') \<Rightarrow> Inr (fst (best st), s')))"



section \<open>Cross-over functors\<close>

text \<open>
  The generator \<open>std::mt19937_64\<close> is opaque: \<open>'g\<close> is its state, and a constructor
  of a functor takes the state of the generator seeded with \<open>seed\<close>. The distributions
  of the standard library are parameters of the model: \<open>uid (a, b) g\<close> is
  \<open>std::uniform_int_distribution<size_t>(a, b)\<close> applied to the generator in state \<open>g\<close>,
  and \<open>urd (a, b) g\<close> is \<open>std::uniform_real_distribution<float>(a, b)\<close>; each returns
  the value drawn and the generator's new state. A \<open>float\<close> is read as the real number
  it denotes; the code only compares two of them.
\<close>

type_synonym 'g uniform_int_distribution = "size_t \<times> size_t \<Rightarrow> 'g \<Rightarrow> size_t \<times> 'g"
type_synonym 'g uniform_real_distribution = "real \<times> real \<Rightarrow> 'g \<Rightarrow> real \<times> 'g"

text \<open>
  The loop \<open>for (size_t i=i0; i<n; ++i) dest[i] = src[i];\<close>. An index outside \<open>src\<close>
  or \<open>dest\<close> is an error: neither \<open>operator[]\<close> resizes.
\<close>

function copy_range :: "nat \<Rightarrow> nat \<Rightarrow> Chromosome \<Rightarrow> Chromosome \<Rightarrow> error + Chromosome" where
  "copy_range i n src dest =
     (if i < n then
        (if i < length src \<and> i < length dest
         then copy_range (Suc i) n src (dest[i := src ! i])
         else Inl OutOfRange)
      else Inr dest)"
  by pat_completeness auto
termination
  by (relation "measure (\<lambda>(i, n, src, dest). n - i)") auto

declare copy_range.simps [simp del]

subsection \<open>RandomSplitCrossOver\<close>

record 'g RandomSplitCrossOver =
  split_rng :: 'g
  split_int_dist :: "size_t \<times> size_t"
  split_binary_dist :: "size_t \<times> size_t"

definition RandomSplitCrossOver_new :: "size_t \<Rightarrow> 'g \<Rightarrow> 'g RandomSplitCrossOver" where
  "RandomSplitCrossOver_new N g =
     \<lparr>split_rng = g, split_int_dist = (0, N - 1), split_binary_dist = (0, 1)\<rparr>"

definition RandomSplitCrossOver_call ::
  "'g uniform_int_distribution \<Rightarrow> 'g RandomSplitCrossOver \<Rightarrow> Chromosome \<Rightarrow> Chromosome
     \<Rightarrow> error + (Chromosome \<times> 'g RandomSplitCrossOver)" where
  "RandomSplitCrossOver_call uid x a b =
     (let dest = replicate (length a) False;
          (pos, g1) = uid (split_int_dist x) (split_rng x);
          (c, g2) = uid (split_binary_dist x) g1
      in if c = 0 then
           (case copy_range 0 (unat pos) a dest of
              Inl e \<Rightarrow> Inl e
            | Inr dest1 \<Rightarrow>
                (case copy_range (unat pos) (length b) b dest1 of
                   Inl e \<Rightarrow> Inl e
                 | Inr dest2 \<Rightarrow> Inr (dest2, x\<lparr>split_rng := g2\<rparr>)))
         else
           (case copy_range 0 (unat pos) b dest of
              Inl e \<Rightarrow> Inl e
            | Inr dest1 \<Rightarrow>
                (case copy_range (unat pos) (length a) a dest1 of
                   Inl e \<Rightarrow> Inl e
                 | Inr dest2 \<Rightarrow> Inr (dest2, x\<lparr>split_rng := g2\<rparr>))))"

subsection \<open>RandomMixCrossOver\<close>

record 'g RandomMixCrossOver =
  mix_rng :: 'g
  mix_int_dist :: "size_t \<times> size_t"

definition RandomMixCrossOver_new :: "'g \<Rightarrow> 'g RandomMixCrossOver" where
  "RandomMixCrossOver_new g = \<lparr>mix_rng = g, mix_int_dist = (0, 1)\<rparr>"

text \<open>
  The loop of \<open>RandomMixCrossOver::operator()\<close> from index \<open>i\<close> on: a coin for each
  position, \<open>dest[i] = a[i]\<close> if it is \<open>0\<close> and \<open>dest[i] = b[i]\<close> otherwise.
\<close>

function mix_loop ::
  "'g uniform_int_distribution \<Rightarrow> size_t \<times> size_t \<Rightarrow> nat \<Rightarrow> Chromosome \<Rightarrow> Chromosome
     \<Rightarrow> Chromosome \<Rightarrow> 'g \<Rightarrow> error + (Chromosome \<times> 'g)" where
  "mix_loop uid d i a b dest g =
     (if i < length a then
        (if fst (uid d g) = 0 then
           (if i < length dest
            then mix_loop uid d (Suc i) a b (dest[i := a ! i]) (snd (uid d g))
            else Inl OutOfRange)
         else
           (if i < length b \<and> i < length dest
            then mix_loop uid d (Suc i) a b (dest[i := b ! i]) (snd (uid d g))
            else Inl OutOfRange))
      else Inr (dest, g))"
  by pat_completeness auto
termination
  by (relation "measure (\<lambda>(uid, d, i, a, b, dest, g). length a - i)") auto

declare mix_loop.simps [simp del]

definition RandomMixCrossOver_call ::
  "'g uniform_int_distribution \<Rightarrow> 'g RandomMixCrossOver \<Rightarrow> Chromosome \<Rightarrow> Chromosome
     \<Rightarrow> error + (Chromosome \<times> 'g RandomMixCrossOver)" where
  "RandomMixCrossOver_call uid x a b =
     (let dest = replicate (length a) False
      in case mix_loop uid (mix_int_dist x) 0 a b dest (mix_rng x) of
           Inl e \<Rightarrow> Inl e
         | Inr (dest', g') \<Rightarrow> Inr (dest', x\<lparr>mix_rng := g'\<rparr>))"

subsection \<open>CrossOverOnProbWrapper\<close>

text \<open>
  The wrapper keeps its own generator and a copy of the wrapped functor; \<open>'x\<close> is that
  functor's object and \<open>crossover_call\<close> its \<open>operator()\<close>.
\<close>

record ('g, 'x) CrossOverOnProbWrapper =
  wrap_rng :: 'g
  wrap_real_dist :: "real \<times> real"
  wrap_binary_dist :: "size_t \<times> size_t"
  wrap_prob :: real
  wrap_crossover :: 'x

definition CrossOverOnProbWrapper_new :: "'g \<Rightarrow> real \<Rightarrow> 'x \<Rightarrow> ('g, 'x) CrossOverOnProbWrapper" where
  "CrossOverOnProbWrapper_new g prob crossover =
     \<lparr>wrap_rng = g, wrap_real_dist = (0, 1), wrap_binary_dist = (0, 1),
      wrap_prob = prob, wrap_crossover = crossover\<rparr>"

definition make_cross_over_on_prob :: "'g \<Rightarrow> real \<Rightarrow> 'x \<Rightarrow> ('g, 'x) CrossOverOnProbWrapper" where
  "make_cross_over_on_prob g prob crossover = CrossOverOnProbWrapper_new g prob crossover"

definition CrossOverOnProbWrapper_call ::
  "'g uniform_real_distribution \<Rightarrow> 'g uniform_int_distribution
     \<Rightarrow> ('x \<Rightarrow> Chromosome \<Rightarrow> Chromosome \<Rightarrow> error + (Chromosome \<times> 'x))
     \<Rightarrow> ('g, 'x) CrossOverOnProbWrapper \<Rightarrow> Chromosome \<Rightarrow> Chromosome
     \<Rightarrow> error + (Chromosome \<times> ('g, 'x) CrossOverOnProbWrapper)" where
  "CrossOverOnProbWrapper_call urd uid crossover_call w a b =
     (let (r, g1) = urd (wrap_real_dist w) (wrap_rng w)
      in if r < wrap_prob w then
           (case crossover_call (wrap_crossover w) a b of
              Inl e \<Rightarrow> Inl e
            | Inr (child, x') \<Rightarrow> Inr (child, w\<lparr>wrap_rng := g1, wrap_crossover := x'\<rparr>))
         else
           (let (c, g2) = uid (wrap_binary_dist w) g1
            in if c = 0 then Inr (a, w\<lparr>wrap_rng := g2\<rparr>)
               else Inr (b, w\<lparr>wrap_rng := g2\<rparr>)))"

section \<open>A test bench\<close>

text \<open>
  Concrete operators to run the functions above on. The state of the test generator is
  the list of the raw numbers it will still produce; the test distributions take the next
  one and bring it into the interval asked for.
\<close>

definition test_uid :: "nat list uniform_int_distribution" where
  "test_uid d g =
     (case g of
        [] \<Rightarrow> (fst d, [])
      | r # rs \<Rightarrow> (fst d + word_of_nat r mod (snd d - fst d + 1), rs))"

definition test_urd :: "nat list uniform_real_distribution" where
  "test_urd d g =
     (case g of
        [] \<Rightarrow> (fst d, [])
      | r # rs \<Rightarrow> (fst d + (snd d - fst d) * (real (r mod 8) / 8), rs))"

text \<open>
  Operators for \<open>solve\<close> on chromosomes of four bits, all drawing from one list of raw
  numbers: the initializer takes the four low bits of a number, the selection pairs
  neighbouring members, the cross-over is \<open>RandomSplitCrossOver\<close> for \<open>N = 4\<close>, the
  mutation flips the bit a number below four points to, and the rank counts the bits set.
\<close>

definition test_init :: "nat list InitializerFunctor" where
  "test_init s =
     (case s of
        [] \<Rightarrow> Inl (FunctorThrew 0)
      | r # rs \<Rightarrow> Inr ([odd r, odd (r div 2), odd (r div 4), odd (r div 8)], rs))"

definition test_select :: "(nat, nat list) SelectionFunctor" where
  "test_select hyps count s =
     (if hyps = [] then Inl (FunctorThrew 1)
      else Inr (map (\<lambda>i. (fst (hyps ! (i mod length hyps)),
                            fst (hyps ! (Suc i mod length hyps)))) [0..<unat count], s))"


definition test_cross :: "nat list CrossOverFunctor" where
  "test_cross a b s =
     (case RandomSplitCrossOver_call test_uid (RandomSplitCrossOver_new 4 s) a b of
        Inl e \<Rightarrow> Inl e
      | Inr (child, x) \<Rightarrow> Inr (child, split_rng x))"

definition test_mutate :: "nat list MutationFunctor" where
  "test_mutate c s =
     (case s of
        [] \<Rightarrow> Inl (FunctorThrew 3)
      | r # rs \<Rightarrow> Inr (if r < length c then c[r := \<not> c ! r] else c, rs))"

definition test_rank :: "nat RankFunctor" where
  "test_rank c = length (filter id c)"

section \<open>Properties of the population\<close>

lemma init_loop_hyps:
  "init_loop k init_func p s = Inr (p', s') \<Longrightarrow>
   length (hypotheses p') = length (hypotheses p) + k \<and> rank_func p' = rank_func p"
proof (induction k arbitrary: p s)
  case 0
  then show ?case by simp
next
  case (Suc k)
  from Suc.prems obtain g s1 where "init_func s = Inr (g, s1)"
    and "init_loop k init_func (Population_push p g) s1 = Inr (p', s')"
    by (auto split: sum.splits)
  with Suc.IH show ?case by (fastforce simp: Population_push_def)
qed

lemma push_children_hyps:
  "push_children cross_over_func mutate_func couples nxt s = Inr (p', s') \<Longrightarrow>
   \<exists>children. hypotheses p' = hypotheses nxt @ children \<and> length children = length couples \<and>
     rank_func p' = rank_func nxt"
proof (induction couples arbitrary: nxt s)
  case Nil
  then show ?case by simp
next
  case (Cons couple rest)
  from Cons.prems obtain child s1 mutant s2 where
    "push_children cross_over_func mutate_func rest (Population_push nxt mutant) s2 = Inr (p', s')"
    by (auto split: sum.splits)
  from Cons.IH [OF this] show ?case by (auto simp: Population_push_def)
qed

lemma Population_top_nonempty:
  "hypotheses p \<noteq> [] \<Longrightarrow> \<exists>t. Population_top p = Inr t"
  by (cases "hypotheses p") (simp_all add: Population_top_def)

lemma first_max_ge: "snd m \<le> snd (first_max m hs)"
proof (induction hs arbitrary: m)
  case Nil
  then show ?case by simp
next
  case (Cons h hs)
  have "snd m \<le> snd (if snd m < snd h then h else m)" by (simp add: less_imp_le)
  also have "\<dots> \<le> snd (first_max (if snd m < snd h then h else m) hs)" by (rule Cons.IH)
  finally show ?case by simp
qed

lemma first_max_mem: "first_max m hs \<in> set (m # hs)"
  by (induction hs arbitrary: m) (auto split: if_splits)

lemma first_max_upper: "h \<in> set hs \<Longrightarrow> snd h \<le> snd (first_max m hs)"
proof (induction hs arbitrary: m)
  case Nil
  then show ?case by simp
next
  case (Cons x xs)
  show ?case
  proof (cases "h = x")
    case True
    have "snd x \<le> snd (if snd m < snd x then x else m)" by (simp add: not_less)
    also have "\<dots> \<le> snd (first_max (if snd m < snd x then x else m) xs)" by (rule first_max_ge)
    finally show ?thesis using True by simp
  next
    case False
    with Cons.prems have "h \<in> set xs" by simp
    from Cons.IH [OF this] show ?thesis by simp
  qed
qed

lemma Population_top_max:
  "Population_top p = Inr t \<Longrightarrow> t \<in> set (hypotheses p) \<and> (\<forall>h \<in> set (hypotheses p). snd h \<le> snd t)"
proof -
  assume a: "Population_top p = Inr t"
  then obtain m hs where p: "hypotheses p = m # hs" and t: "t = first_max m hs"
    by (auto simp: Population_top_def split: list.splits)
  show ?thesis using first_max_mem [of m hs] first_max_ge [of m hs] first_max_upper [of _ hs m]
    by (auto simp: p t)
qed

section \<open>Properties of the solver\<close>

lemma solve_generation_Inr:
  assumes "solve_generation population_size select_func cross_over_func mutate_func st s = Inr (st', s')"
  shows "\<exists>couples s1 filled t.
           select_func (hypotheses (current st)) (population_size - 1) s = Inr (couples, s1) \<and>
           push_children cross_over_func mutate_func couples (next_gen st) s1 = Inr (filled, s') \<and>
           Population_top filled = Inr t \<and>
           best st' = (if snd (best st) < snd t then t else best st) \<and>
           current st' = Population_push filled (fst (best st')) \<and>
           next_gen st' = Population_reset (current st)"
proof -
  let ?sel = "select_func (hypotheses (current st)) (population_size - 1) s"
  obtain couples s1 where sel: "?sel = Inr (couples, s1)"
    using assms by (cases ?sel) (auto simp: solve_generation_def Population_select_def)
  let ?pc = "push_children cross_over_func mutate_func couples (next_gen st) s1"
  obtain filled s2 where pc: "?pc = Inr (filled, s2)"
    using assms sel by (cases ?pc) (auto simp: solve_generation_def Population_select_def)
  obtain t where t: "Population_top filled = Inr t"
    using assms sel pc
    by (cases "Population_top filled") (auto simp: solve_generation_def Population_select_def)
  let ?b = "if snd (best st) < snd t then t else best st"
  have "Inr (st', s') = Inr (\<lparr>current = Population_push filled (fst ?b),
      next_gen = Population_reset (current st), best = ?b\<rparr>, s2)"
    using assms sel pc t by (simp add: solve_generation_def Population_select_def Let_def)
  then have st': "st' = \<lparr>current = Population_push filled (fst ?b),
      next_gen = Population_reset (current st), best = ?b\<rparr>" and s': "s' = s2"
    by simp_all
  have "best st' = ?b" by (simp add: st')
  moreover have "current st' = Population_push filled (fst (best st'))" by (simp add: st')
  moreover have "next_gen st' = Population_reset (current st)" by (simp add: st')
  ultimately show ?thesis using sel pc t s' by blast
qed

lemma solve_generation_best:
  assumes "solve_generation population_size select_func cross_over_func mutate_func st s = Inr (st', s')"
  shows "best st' = best st \<or> snd (best st) < snd (best st')"
proof -
  from solve_generation_Inr [OF assms] obtain t where
    "best st' = (if snd (best st) < snd t then t else best st)" by blast
  then show ?thesis by (cases "snd (best st) < snd t") simp_all
qed

lemma solve_loop_best:
  "solve_loop k population_size select_func cross_over_func mutate_func st s = Inr (st', s') \<Longrightarrow>
   snd (best st) \<le> snd (best st') \<and> (snd (best st') \<le> snd (best st) \<longrightarrow> best st' = best st)"
proof (induction k arbitrary: st s)
  case 0
  then show ?case by simp
next
  case (Suc k)
  from Suc.prems obtain st1 s1 where
    g: "solve_generation population_size select_func cross_over_func mutate_func st s = Inr (st1, s1)"
    and l: "solve_loop k population_size select_func cross_over_func mutate_func st1 s1 = Inr (st', s')"
    by (auto split: sum.splits)
  from Suc.IH [OF l] have ih1: "snd (best st1) \<le> snd (best st')"
    and ih2: "snd (best st') \<le> snd (best st1) \<longrightarrow> best st' = best st1" by simp_all
  from solve_generation_best [OF g] have b: "best st1 = best st \<or> snd (best st) < snd (best st1)" .
  have le: "snd (best st) \<le> snd (best st1)" using b by auto
  have "snd (best st) \<le> snd (best st')" using le ih1 by (rule order_trans)
  moreover have "best st' = best st" if "snd (best st') \<le> snd (best st)"
  proof -
    from that le have "snd (best st') \<le> snd (best st1)" by (rule order_trans)
    with ih2 have e: "best st' = best st1" by simp
    with that have "snd (best st1) \<le> snd (best st)" by simp
    with b have "best st1 = best st" by auto
    with e show ?thesis by simp
  qed
  ultimately show ?case by blast
qed

lemma solve_seed_Inr:
  assumes "solve_seed population_size init_func rank_f s = Inr (st0, s0)"
  shows "population_size \<noteq> 0 \<and>
         Population_init (Population_new rank_f) init_func population_size s = Inr (current st0, s0) \<and>
         Population_top (current st0) = Inr (best st0) \<and>
         next_gen st0 = Population_new rank_f \<and>
         length (hypotheses (current st0)) = unat population_size \<and>
         rank_func (current st0) = rank_f"
proof -
  let ?i = "Population_init (Population_new rank_f) init_func population_size s"
  obtain cur s1 where i: "?i = Inr (cur, s1)"
    using assms by (cases ?i) (auto simp: solve_seed_def)
  obtain b where t: "Population_top cur = Inr b"
    using assms i by (cases "Population_top cur") (auto simp: solve_seed_def)
  have "Inr (st0, s0) = Inr (\<lparr>current = cur, next_gen = Population_new rank_f, best = b\<rparr>, s1)"
    using assms i t by (simp add: solve_seed_def)
  then have st0: "st0 = \<lparr>current = cur, next_gen = Population_new rank_f, best = b\<rparr>"
    and s0: "s0 = s1" by simp_all
  have n: "population_size \<noteq> 0"
    and l: "init_loop (unat population_size) init_func (Population_new rank_f) s = Inr (cur, s1)"
    using i by (auto simp: Population_init_def Population_new_def split: if_splits)
  from init_loop_hyps [OF l] have "length (hypotheses cur) = unat population_size"
    and "rank_func cur = rank_f" by (simp_all add: Population_new_def)
  then show ?thesis using n i t by (simp add: st0 s0)
qed



lemma solve_generation_progress:
  assumes exact: "\<forall>hyps n s couples s'. select_func hyps n s = Inr (couples, s') \<longrightarrow> length couples = unat n"
    and ps: "1 < population_size"
    and sel: "select_func (hypotheses (current st)) (population_size - 1) s = Inr (couples, s1)"
    and pc: "push_children cross_over_func mutate_func couples (next_gen st) s1 = Inr (filled, s2)"
  shows "\<exists>st'. solve_generation population_size select_func cross_over_func mutate_func st s =
           Inr (st', s2)"
proof -
  have n: "population_size \<noteq> 0" using ps by auto
  from exact sel have "length couples = unat (population_size - 1)" by blast
  then have lc: "length couples = unat population_size - 1" using n by (simp add: unat_minus_one)
  have "unat (1 :: size_t) < unat population_size" using ps by (simp only: word_less_nat_alt)
  then have "0 < length couples" using lc by simp
  moreover from push_children_hyps [OF pc] obtain children where
    "hypotheses filled = hypotheses (next_gen st) @ children" "length children = length couples"
    by blast
  ultimately have "hypotheses filled \<noteq> []" by auto
  from Population_top_nonempty [OF this] obtain t where "Population_top filled = Inr t" ..
  then show ?thesis
    using sel pc by (simp add: solve_generation_def Population_select_def Let_def)
qed

lemma population_size_one_fails:
  assumes seed: "solve_seed 1 init_func rank_f s = Inr (st0, s0)"
    and none: "select_func (hypotheses (current st0)) 0 s0 = Inr ([], s1)"
    and k: "num_iterations \<noteq> 0"
  shows "solve num_iterations 1 init_func select_func cross_over_func mutate_func rank_f s =
           Inl EmptyPopulation"
proof -
  from solve_seed_Inr [OF seed] have e: "hypotheses (next_gen st0) = []"
    by (simp add: Population_new_def)
  have g: "solve_generation 1 select_func cross_over_func mutate_func st0 s0 = Inl EmptyPopulation"
    using none e by (simp add: solve_generation_def Population_select_def Population_top_def)
  have "unat num_iterations \<noteq> 0" using k by (simp add: unat_eq_0)
  then obtain k' where "unat num_iterations = Suc k'" by (cases "unat num_iterations") auto
  then show ?thesis using seed g by (simp add: solve_def)
qed









lemma test_run_eval:
  "(case solve_seed 3 test_init test_rank [17, 6, 3, 2, 0, 9, 5, 5, 0, 3, 0, 3, 2, 5, 0] of
      Inl e \<Rightarrow> None
    | Inr (st0, s0) \<Rightarrow>
        (case solve_generation 3 test_select test_cross test_mutate st0 s0 of
           Inl e \<Rightarrow> None
         | Inr (st1, s1) \<Rightarrow>
             (case solve_loop 2 3 test_select test_cross test_mutate st0 s0 of
                Inl e \<Rightarrow> None
              | Inr (st, s') \<Rightarrow>
                  Some (best st0, hypotheses (current st1), best st1,
                        hypotheses (current st), best st, s')))) =
   Some (([False, True, True, False], 2),
         [([True, False, True, False], 2), ([False, True, True, False], 2),
          ([False, True, True, False], 2)],
         ([False, True, True, False], 2),
         [([True, False, True, True], 3), ([True, True, True, False], 3),
          ([True, False, True, True], 3)],
         ([True, False, True, True], 3), [])"
  by code_simp

lemma test_run:
  "\<exists>st0 s0 st1 s1 st s'.
     solve_seed 3 test_init test_rank [17, 6, 3, 2, 0, 9, 5, 5, 0, 3, 0, 3, 2, 5, 0] = Inr (st0, s0) \<and>
     solve_generation 3 test_select test_cross test_mutate st0 s0 = Inr (st1, s1) \<and>
     solve_loop 2 3 test_select test_cross test_mutate st0 s0 = Inr (st, s') \<and>
     best st0 = ([False, True, True, False], 2) \<and>
     hypotheses (current st1) =
       [([True, False, True, False], 2), ([False, True, True, False], 2),
        ([False, True, True, False], 2)] \<and>
     best st1 = ([False, True, True, False], 2) \<and>
     hypotheses (current st) =
       [([True, False, True, True], 3), ([True, True, True, False], 3),
        ([True, False, True, True], 3)] \<and>
     best st = ([True, False, True, True], 3)"
  using test_run_eval by (simp split: sum.splits prod.splits)

section \<open>Claims about the solver\<close>

text \<open>
  Claim C1. In every generation the best-so-far hypothesis is replaced exactly when the top
  of the new generation (the population before the elitism push) has a strictly greater
  rank, and otherwise kept. Over any number of generations the rank of \<open>best\<close> does not
  decrease, and if the rank is the same at the end then \<open>best\<close> is the very same
  hypothesis: a tie never overwrites it.
\<close>

theorem best_updated_only_on_strict_improvement:
  "(solve_generation population_size select_func cross_over_func mutate_func st s = Inr (st_next, s_next) \<longrightarrow>
      (\<exists>children t.
         hypotheses (current st_next) =
           children @ [(fst (best st_next), rank_func (current st_next) (fst (best st_next)))] \<and>
         Population_top ((current st_next)\<lparr>hypotheses := children\<rparr>) = Inr t \<and>
         best st_next = (if snd (best st) < snd t then t else best st))) \<and>
   (solve_loop k population_size select_func cross_over_func mutate_func st s = Inr (st', s') \<longrightarrow>
      snd (best st) \<le> snd (best st') \<and>
      (snd (best st') = snd (best st) \<longrightarrow> best st' = best st))"
proof (rule conjI; rule impI)
  assume "solve_generation population_size select_func cross_over_func mutate_func st s = Inr (st_next, s_next)"
  from solve_generation_Inr [OF this] obtain filled t where
    t: "Population_top filled = Inr t"
    and b: "best st_next = (if snd (best st) < snd t then t else best st)"
    and c: "current st_next = Population_push filled (fst (best st_next))"
    by blast
  have "hypotheses (current st_next) =
      hypotheses filled @ [(fst (best st_next), rank_func (current st_next) (fst (best st_next)))]"
    by (simp add: c Population_push_def)
  moreover have "(current st_next)\<lparr>hypotheses := hypotheses filled\<rparr> = filled"
    by (simp add: c Population_push_def)
  ultimately show "\<exists>children t.
         hypotheses (current st_next) =
           children @ [(fst (best st_next), rank_func (current st_next) (fst (best st_next)))] \<and>
         Population_top ((current st_next)\<lparr>hypotheses := children\<rparr>) = Inr t \<and>
         best st_next = (if snd (best st) < snd t then t else best st)"
    using t b by metis
next
  assume "solve_loop k population_size select_func cross_over_func mutate_func st s = Inr (st', s')"
  from solve_loop_best [OF this]
  show "snd (best st) \<le> snd (best st') \<and> (snd (best st') = snd (best st) \<longrightarrow> best st' = best st)"
    by simp
qed

theorem best_updated_only_on_strict_improvement_witness:
  "\<exists>st0 s0 st1 s1 st s'.
     solve_seed 3 test_init test_rank [17, 6, 3, 2, 0, 9, 5, 5, 0, 3, 0, 3, 2, 5, 0] = Inr (st0, s0) \<and>
     solve_generation 3 test_select test_cross test_mutate st0 s0 = Inr (st1, s1) \<and>
     solve_loop 2 3 test_select test_cross test_mutate st0 s0 = Inr (st, s') \<and>
     (\<exists>children t.
        hypotheses (current st1) =
          children @ [(fst (best st1), rank_func (current st1) (fst (best st1)))] \<and>
        Population_top ((current st1)\<lparr>hypotheses := children\<rparr>) = Inr t \<and>
        best st1 = (if snd (best st0) < snd t then t else best st0)) \<and>
     best st1 = best st0 \<and> snd (best st0) = 2 \<and> snd (best st) = 3 \<and>
     snd (best st0) \<le> snd (best st) \<and>
     (snd (best st) = snd (best st0) \<longrightarrow> best st = best st0)"
proof -
  from test_run obtain st0 s0 st1 s1 st s' where
    seed: "solve_seed 3 test_init test_rank [17, 6, 3, 2, 0, 9, 5, 5, 0, 3, 0, 3, 2, 5, 0] = Inr (st0, s0)"
    and gen: "solve_generation 3 test_select test_cross test_mutate st0 s0 = Inr (st1, s1)"
    and run: "solve_loop 2 3 test_select test_cross test_mutate st0 s0 = Inr (st, s')"
    and b0: "best st0 = ([False, True, True, False], 2)"
    and b1: "best st1 = ([False, True, True, False], 2)"
    and b: "best st = ([True, False, True, True], 3)"
    by blast
  note both = best_updated_only_on_strict_improvement [where k = 2 and population_size = 3 and select_func = test_select
      and cross_over_func = test_cross and mutate_func = test_mutate and st = st0 and s = s0
      and st_next = st1 and s_next = s1 and st' = st and s' = s']
  from both gen have one: "\<exists>children t.
        hypotheses (current st1) =
          children @ [(fst (best st1), rank_func (current st1) (fst (best st1)))] \<and>
        Population_top ((current st1)\<lparr>hypotheses := children\<rparr>) = Inr t \<and>
        best st1 = (if snd (best st0) < snd t then t else best st0)"
    by blast
  from both run have many: "snd (best st0) \<le> snd (best st) \<and>
      (snd (best st) = snd (best st0) \<longrightarrow> best st = best st0)"
    by blast
  have "best st1 = best st0 \<and> snd (best st0) = 2 \<and> snd (best st) = 3"
    by (simp add: b0 b1 b)
  with seed gen run one many show ?thesis by blast
qed

text \<open>
  Claim C2. With \<open>population_size = 1\<close> the selection is asked for \<open>1 - 1 = 0\<close> couples.
  When it returns none, \<open>next\<close> stays empty, so after the swap \<open>current.top()\<close> is taken
  of an empty population: \<open>solve\<close> does not return the seeded top for any
  \<open>num_iterations\<close> other than \<open>0\<close> (lemma \<open>population_size_one_fails\<close>). Below, the
  same call with no generation and with one.
\<close>

theorem solve_population_size_one_empty_top:
  "solve 0 1 test_init test_select test_cross test_mutate test_rank [5] =
     Inr ([True, False, True, False], []) \<and>
   solve 1 1 test_init test_select test_cross test_mutate test_rank [5] = Inl EmptyPopulation"
  by code_simp

text \<open>
  Claim C3. For \<open>n \<ge> 1\<close>, \<open>solve\<close> with \<open>num_iterations = 0\<close> returns the top genotype
  of the population that \<open>init\<close> fills with \<open>n\<close> members, and leaves the operators in
  the state \<open>init\<close> left them in, whatever the selection, cross-over and mutation
  functors are; it fails only if \<open>init\<close> does.
\<close>

theorem solve_zero_iterations:
  assumes "1 \<le> n"
  shows "case Population_init (Population_new rank_f) init_func n s of
           Inl e \<Rightarrow> solve 0 n init_func select_func cross_over_func mutate_func rank_f s = Inl e
         | Inr (p, s') \<Rightarrow>
             length (hypotheses p) = unat n \<and>
             (\<exists>t. Population_top p = Inr t \<and>
                  solve 0 n init_func select_func cross_over_func mutate_func rank_f s = Inr (fst t, s'))"
proof (cases "Population_init (Population_new rank_f) init_func n s")
  case (Inl e)
  then show ?thesis by (simp add: solve_def solve_seed_def)
next
  case (Inr r)
  obtain p s' where r: "r = (p, s')" by (cases r)
  have n: "n \<noteq> 0" using assms by auto
  from Inr r have "init_loop (unat n) init_func (Population_new rank_f) s = Inr (p, s')"
    by (simp add: Population_init_def Population_new_def split: if_splits)
  from init_loop_hyps [OF this] have len: "length (hypotheses p) = unat n"
    by (simp add: Population_new_def)
  have "unat n \<noteq> 0" using n by (simp add: unat_eq_0)
  with len have "hypotheses p \<noteq> []" by auto
  from Population_top_nonempty [OF this] obtain t where t: "Population_top p = Inr t" ..
  have "solve 0 n init_func select_func cross_over_func mutate_func rank_f s = Inr (fst t, s')"
    using Inr r t by (simp add: solve_def solve_seed_def)
  with t have "\<exists>t. Population_top p = Inr t \<and>
      solve 0 n init_func select_func cross_over_func mutate_func rank_f s = Inr (fst t, s')"
    by blast
  with len show ?thesis unfolding Inr r by simp
qed

theorem solve_zero_iterations_witness:
  "(1 :: size_t) \<le> 3 \<and>
   solve 0 3 test_init test_select test_cross test_mutate test_rank [17, 6, 3, 4, 5] =
     Inr ([False, True, True, False], [4, 5])"
proof -
  have one: "(1 :: size_t) \<le> 3" by simp
  have init: "(case Population_init (Population_new test_rank) test_init 3 [17, 6, 3, 4, 5] of
       Inl e \<Rightarrow> None | Inr (p, s') \<Rightarrow> Some (hypotheses p, s')) =
     Some ([([True, False, False, False], 1), ([False, True, True, False], 2),
            ([True, True, False, False], 2)], [4, 5])"
    by code_simp
  then obtain p where p: "Population_init (Population_new test_rank) test_init 3 [17, 6, 3, 4, 5] = Inr (p, [4, 5])"
    and h: "hypotheses p = [([True, False, False, False], 1), ([False, True, True, False], 2),
            ([True, True, False, False], 2)]"
    by (auto split: sum.splits prod.splits)
  have t: "Population_top p = Inr ([False, True, True, False], 2)"
    by (simp add: Population_top_def h)
  from solve_zero_iterations [OF one, where rank_f = test_rank and init_func = test_init
      and s = "[17, 6, 3, 4, 5]" and select_func = test_select and cross_over_func = test_cross
      and mutate_func = test_mutate]
  have "solve 0 3 test_init test_select test_cross test_mutate test_rank [17, 6, 3, 4, 5] =
     Inr ([False, True, True, False], [4, 5])"
    by (simp add: p t)
  with one show ?thesis by simp
qed







section \<open>Properties of the cross-over loops\<close>

lemma copy_range_ok:
  "i \<le> n \<Longrightarrow> n \<le> length src \<Longrightarrow> n \<le> length dest \<Longrightarrow>
   copy_range i n src dest = Inr (take i dest @ take (n - i) (drop i src) @ drop n dest)"
proof (induction i n src dest rule: copy_range.induct)
  case (1 i n src dest)
  show ?case
  proof (cases "i < n")
    case True
    then have a: "i < length src" "i < length dest" using "1.prems" by auto
    have step: "copy_range i n src dest = copy_range (Suc i) n src (dest[i := src ! i])"
      using True a by (subst copy_range.simps) simp
    have ih: "copy_range (Suc i) n src (dest[i := src ! i]) =
        Inr (take (Suc i) (dest[i := src ! i]) @ take (n - Suc i) (drop (Suc i) src) @ drop n (dest[i := src ! i]))"
      using "1.IH" True a "1.prems" by simp
    have t1: "take (Suc i) (dest[i := src ! i]) = take i dest @ [src ! i]"
      using a by (simp add: take_Suc_conv_app_nth)
    have t2: "drop n (dest[i := src ! i]) = drop n dest" using True by simp
    have t3: "take (n - i) (drop i src) = src ! i # take (n - Suc i) (drop (Suc i) src)"
      using True a by (metis Cons_nth_drop_Suc Suc_diff_Suc take_Suc_Cons)
    show ?thesis unfolding step ih t1 t2 t3 by simp
  next
    case False
    then show ?thesis using "1.prems" by (subst copy_range.simps) simp
  qed
qed

lemma copy_range_length:
  "copy_range i n src dest = Inr d \<Longrightarrow> length d = length dest"
proof (induction i n src dest rule: copy_range.induct)
  case (1 i n src dest)
  show ?case
  proof (cases "i < n")
    case False
    then show ?thesis using "1.prems" by (subst (asm) copy_range.simps) simp
  next
    case True
    from "1.prems" have r: "(if i < length src \<and> i < length dest
         then copy_range (Suc i) n src (dest[i := src ! i])
         else Inl OutOfRange) = Inr d"
      using True by (subst (asm) copy_range.simps) simp
    then have ok: "i < length src \<and> i < length dest" by (simp split: if_splits)
    with r have "copy_range (Suc i) n src (dest[i := src ! i]) = Inr d" by simp
    with "1.IH" True ok show ?thesis by simp
  qed
qed

lemma mix_loop_ok:
  "i \<le> length a \<Longrightarrow> length b = length a \<Longrightarrow> length dest = length a \<Longrightarrow>
   \<exists>dest' g'. mix_loop uid d i a b dest g = Inr (dest', g') \<and> length dest' = length a \<and>
     (\<forall>j<i. dest' ! j = dest ! j) \<and>
     (\<forall>j. i \<le> j \<and> j < length a \<longrightarrow> dest' ! j = a ! j \<or> dest' ! j = b ! j)"
proof (induction uid d i a b dest g rule: mix_loop.induct)
  case (1 uid d i a b dest g)
  show ?case
  proof (cases "i < length a")
    case False
    then show ?thesis using "1.prems" by (subst mix_loop.simps) auto
  next
    case True
    let ?v = "if fst (uid d g) = 0 then a ! i else b ! i"
    have step: "mix_loop uid d i a b dest g = mix_loop uid d (Suc i) a b (dest[i := ?v]) (snd (uid d g))"
      using True "1.prems" by (subst mix_loop.simps) simp
    have "\<exists>dest' g'. mix_loop uid d (Suc i) a b (dest[i := ?v]) (snd (uid d g)) = Inr (dest', g') \<and>
        length dest' = length a \<and> (\<forall>j<Suc i. dest' ! j = (dest[i := ?v]) ! j) \<and>
        (\<forall>j. Suc i \<le> j \<and> j < length a \<longrightarrow> dest' ! j = a ! j \<or> dest' ! j = b ! j)"
    proof (cases "fst (uid d g) = 0")
      case True
      with "1.IH"(1) \<open>i < length a\<close> "1.prems" show ?thesis by simp
    next
      case False
      with "1.IH"(2) \<open>i < length a\<close> "1.prems" show ?thesis by simp
    qed
    then obtain dest' g' where r: "mix_loop uid d (Suc i) a b (dest[i := ?v]) (snd (uid d g)) = Inr (dest', g')"
      and l: "length dest' = length a"
      and pre: "\<forall>j<Suc i. dest' ! j = (dest[i := ?v]) ! j"
      and post: "\<forall>j. Suc i \<le> j \<and> j < length a \<longrightarrow> dest' ! j = a ! j \<or> dest' ! j = b ! j"
      by blast
    have old: "\<forall>j<i. dest' ! j = dest ! j" using pre by simp
    have at_i: "dest' ! i = ?v" using pre True "1.prems" by simp
    have "\<forall>j. i \<le> j \<and> j < length a \<longrightarrow> dest' ! j = a ! j \<or> dest' ! j = b ! j"
    proof (intro allI impI)
      fix j assume j: "i \<le> j \<and> j < length a"
      show "dest' ! j = a ! j \<or> dest' ! j = b ! j"
      proof (cases "j = i")
        case True
        then show ?thesis using at_i by simp
      next
        case False
        then have "Suc i \<le> j" using j by simp
        then show ?thesis using post j by simp
      qed
    qed
    then show ?thesis using step r l old by simp
  qed
qed

lemma mix_loop_from_start:
  assumes "length b = length a"
  shows "\<exists>dest' g'. mix_loop uid d 0 a b (replicate (length a) False) g = Inr (dest', g') \<and>
          length dest' = length a \<and>
          (\<forall>j<length a. dest' ! j = a ! j \<or> dest' ! j = b ! j)"
proof -
  have "\<exists>dest' g'. mix_loop uid d 0 a b (replicate (length a) False) g =
            Inr (dest', g') \<and> length dest' = length a \<and>
          (\<forall>j<0. dest' ! j = replicate (length a) False ! j) \<and>
          (\<forall>j. 0 \<le> j \<and> j < length a \<longrightarrow> dest' ! j = a ! j \<or> dest' ! j = b ! j)"
    by (rule mix_loop_ok) (use assms in simp_all)
  then show ?thesis by simp
qed

lemma mix_loop_length:
  "mix_loop uid d i a b dest g = Inr (dest', g') \<Longrightarrow> length dest' = length dest"
proof (induction uid d i a b dest g rule: mix_loop.induct)
  case (1 uid d i a b dest g)
  show ?case
  proof (cases "i < length a")
    case False
    then show ?thesis using "1.prems" by (subst (asm) mix_loop.simps) simp
  next
    case True
    note lt = this
    show ?thesis
    proof (cases "fst (uid d g) = 0")
      case True
      from "1.prems" lt True have "(if i < length dest
            then mix_loop uid d (Suc i) a b (dest[i := a ! i]) (snd (uid d g))
            else Inl OutOfRange) = Inr (dest', g')"
        by (subst (asm) mix_loop.simps) simp
      then have "i < length dest"
        and "mix_loop uid d (Suc i) a b (dest[i := a ! i]) (snd (uid d g)) = Inr (dest', g')"
        by (simp_all split: if_splits)
      with "1.IH"(1) lt True show ?thesis by simp
    next
      case False
      from "1.prems" lt False have "(if i < length b \<and> i < length dest
            then mix_loop uid d (Suc i) a b (dest[i := b ! i]) (snd (uid d g))
            else Inl OutOfRange) = Inr (dest', g')"
        by (subst (asm) mix_loop.simps) simp
      then have "i < length b \<and> i < length dest"
        and "mix_loop uid d (Suc i) a b (dest[i := b ! i]) (snd (uid d g)) = Inr (dest', g')"
        by (simp_all split: if_splits)
      with "1.IH"(2) lt False show ?thesis by simp
    qed
  qed
qed

section \<open>Claims about the cross-over functors\<close>

text \<open>
  Claim C5. Let the real distribution draw from \<open>[0, 1)\<close>. With \<open>prob = 1\<close> a call of
  the wrapper is a call of the wrapped functor on the wrapper's copy of it: same child,
  same new state of the copy, same failure. With \<open>prob = 0\<close> a call returns one of the
  two parents and leaves the wrapped functor untouched.
\<close>

theorem CrossOverOnProbWrapper_bounds:
  "(wrap_prob w = 1 \<and> fst (urd (wrap_real_dist w) (wrap_rng w)) < 1 \<longrightarrow>
      CrossOverOnProbWrapper_call urd uid crossover_call w a b =
        (case crossover_call (wrap_crossover w) a b of
           Inl e \<Rightarrow> Inl e
         | Inr (child, x') \<Rightarrow>
             Inr (child, w\<lparr>wrap_rng := snd (urd (wrap_real_dist w) (wrap_rng w)),
                            wrap_crossover := x'\<rparr>))) \<and>
   (wrap_prob w = 0 \<and> 0 \<le> fst (urd (wrap_real_dist w) (wrap_rng w)) \<longrightarrow>
      (\<exists>child w'. CrossOverOnProbWrapper_call urd uid crossover_call w a b = Inr (child, w') \<and>
         (child = a \<or> child = b) \<and> wrap_crossover w' = wrap_crossover w))"
  by (auto simp: CrossOverOnProbWrapper_call_def Let_def split: prod.splits sum.splits)

theorem CrossOverOnProbWrapper_bounds_witness:
  "CrossOverOnProbWrapper_call test_urd test_uid (RandomSplitCrossOver_call test_uid)
      (make_cross_over_on_prob [3] 1 (RandomSplitCrossOver_new 4 [2, 0]))
      [True, True, True, True] [False, False, False, False] =
     Inr ([True, True, False, False],
          make_cross_over_on_prob [] 1 (RandomSplitCrossOver_new 4 [])) \<and>
   (\<exists>child w'.
      CrossOverOnProbWrapper_call test_urd test_uid (RandomSplitCrossOver_call test_uid)
        (make_cross_over_on_prob [3, 5] 0 (RandomSplitCrossOver_new 4 [2, 0]))
        [True, True, True, True] [False, False, False, False] = Inr (child, w') \<and>
      (child = [True, True, True, True] \<or> child = [False, False, False, False]) \<and>
      wrap_crossover w' = RandomSplitCrossOver_new 4 [2, 0])"
proof -
  let ?x = "RandomSplitCrossOver_new 4 [2 :: nat, 0]"
  let ?w1 = "make_cross_over_on_prob [3 :: nat] 1 ?x"
  let ?w0 = "make_cross_over_on_prob [3 :: nat, 5] 0 ?x"
  have x: "RandomSplitCrossOver_call test_uid ?x
      [True, True, True, True] [False, False, False, False] =
     Inr ([True, True, False, False], RandomSplitCrossOver_new 4 [])"
    by code_simp
  have p1: "wrap_prob ?w1 = 1 \<and> fst (test_urd (wrap_real_dist ?w1) (wrap_rng ?w1)) < 1"
    by (simp add: make_cross_over_on_prob_def CrossOverOnProbWrapper_new_def test_urd_def)
  have p0: "wrap_prob ?w0 = 0 \<and> 0 \<le> fst (test_urd (wrap_real_dist ?w0) (wrap_rng ?w0))"
    by (simp add: make_cross_over_on_prob_def CrossOverOnProbWrapper_new_def test_urd_def)
  note thm1 = CrossOverOnProbWrapper_bounds [where w = ?w1 and urd = test_urd and uid = test_uid
      and crossover_call = "RandomSplitCrossOver_call test_uid"
      and a = "[True, True, True, True]" and b = "[False, False, False, False]", THEN conjunct1,
      rule_format, OF p1]
  note thm0 = CrossOverOnProbWrapper_bounds [where w = ?w0 and urd = test_urd and uid = test_uid
      and crossover_call = "RandomSplitCrossOver_call test_uid"
      and a = "[True, True, True, True]" and b = "[False, False, False, False]", THEN conjunct2,
      rule_format, OF p0]
  have "CrossOverOnProbWrapper_call test_urd test_uid (RandomSplitCrossOver_call test_uid) ?w1
      [True, True, True, True] [False, False, False, False] =
     Inr ([True, True, False, False],
          make_cross_over_on_prob [] 1 (RandomSplitCrossOver_new 4 []))"
    unfolding thm1
    by (simp add: make_cross_over_on_prob_def CrossOverOnProbWrapper_new_def x test_urd_def)
  moreover have "wrap_crossover ?w0 = ?x"
    by (simp add: make_cross_over_on_prob_def CrossOverOnProbWrapper_new_def)
  ultimately show ?thesis using thm0 by simp
qed

text \<open>
  Claim C6. For parents of the common length \<open>N \<ge> 1\<close> and a functor constructed for
  \<open>N\<close>, let \<open>p\<close> be the position drawn (in \<open>[0, N-1]\<close>, as the distribution
  promises) and \<open>c\<close> the coin. The call returns a child of length \<open>N\<close>: the first
  \<open>p\<close> bits of \<open>a\<close> followed by the bits of \<open>b\<close> from \<open>p\<close> on if \<open>c = 0\<close>, and the
  same with \<open>a\<close> and \<open>b\<close> exchanged otherwise.
\<close>

theorem RandomSplitCrossOver_reconstruction:
  assumes len_a: "length a = unat N" and len_b: "length b = unat N" and N: "N \<noteq> 0"
    and draw: "fst (uid (0, N - 1) g) \<le> N - 1"
  shows "let (pos, g1) = uid (0, N - 1) g;
             (c, g2) = uid (0, 1) g1;
             p = unat pos;
             child = (if c = 0 then take p a @ drop p b else take p b @ drop p a)
         in p \<le> unat N - 1 \<and> length child = unat N \<and>
            RandomSplitCrossOver_call uid (RandomSplitCrossOver_new N g) a b =
              Inr (child, RandomSplitCrossOver_new N g2)"
proof -
  obtain pos g1 where d1: "uid (0, N - 1) g = (pos, g1)" by (cases "uid (0, N - 1) g")
  obtain c g2 where d2: "uid (0, 1) g1 = (c, g2)" by (cases "uid (0, 1) g1")
  have "pos \<le> N - 1" using draw d1 by simp
  then have "unat pos \<le> unat (N - 1)" by (simp add: word_le_nat_alt)
  then have p: "unat pos \<le> unat N - 1" using N by (simp add: unat_minus_one)
  then have pn: "unat pos \<le> unat N" by simp
  have first_a: "copy_range 0 (unat pos) a (replicate (unat N) False) =
      Inr (take (unat pos) a @ replicate (unat N - unat pos) False)"
    using pn len_a by (simp add: copy_range_ok)
  have first_b: "copy_range 0 (unat pos) b (replicate (unat N) False) =
      Inr (take (unat pos) b @ replicate (unat N - unat pos) False)"
    using pn len_b by (simp add: copy_range_ok)
  have second: "length src = unat N \<Longrightarrow> length pre = unat N \<Longrightarrow>
      copy_range (unat pos) (unat N) src (take (unat pos) pre @ replicate (unat N - unat pos) False) =
      Inr (take (unat pos) pre @ drop (unat pos) src)" for src pre :: Chromosome
    using pn by (simp add: copy_range_ok)
  show ?thesis
    using p len_a len_b
    by (simp add: d1 d2 RandomSplitCrossOver_call_def RandomSplitCrossOver_new_def
        first_a first_b second)
qed

theorem RandomSplitCrossOver_reconstruction_witness:
  "RandomSplitCrossOver_call test_uid (RandomSplitCrossOver_new 4 [2, 0])
      [True, True, True, True] [False, False, False, False] =
     Inr ([True, True, False, False], RandomSplitCrossOver_new 4 []) \<and>
   RandomSplitCrossOver_call test_uid (RandomSplitCrossOver_new 4 [3, 5])
      [True, True, True, True] [False, False, False, False] =
     Inr ([False, False, False, True], RandomSplitCrossOver_new 4 [])"
proof -
  have la: "length [True, True, True, True] = unat (4 :: size_t)"
    and lb: "length [False, False, False, False] = unat (4 :: size_t)"
    and n: "(4 :: size_t) \<noteq> 0" by simp_all
  have d0: "fst (test_uid (0, 4 - 1) [2, 0]) \<le> 4 - 1"
    and d1: "fst (test_uid (0, 4 - 1) [3, 5]) \<le> 4 - 1" by (simp_all add: test_uid_def)
  from RandomSplitCrossOver_reconstruction [where uid = test_uid and g = "[2, 0]" and N = 4, OF la lb n d0]
    RandomSplitCrossOver_reconstruction [where uid = test_uid and g = "[3, 5]" and N = 4, OF la lb n d1]
  show ?thesis by (simp add: test_uid_def)
qed

text \<open>
  Claim C7. For parents of the common length \<open>N\<close> the mix cross-over returns a child of
  length \<open>N\<close> whose bit at every position is the bit of \<open>a\<close> or the bit of \<open>b\<close> at that
  position.
\<close>

theorem RandomMixCrossOver_membership:
  assumes "length a = N" and "length b = N"
  shows "\<exists>child x'. RandomMixCrossOver_call uid x a b = Inr (child, x') \<and> length child = N \<and>
           (\<forall>i<N. child ! i = a ! i \<or> child ! i = b ! i)"
proof -
  have "length b = length a" using assms by simp
  from mix_loop_from_start [OF this, where uid = uid and d = "mix_int_dist x" and g = "mix_rng x"]
  obtain dest' g' where
    r: "mix_loop uid (mix_int_dist x) 0 a b (replicate (length a) False) (mix_rng x) = Inr (dest', g')"
    and l: "length dest' = length a"
    and m: "\<forall>j<length a. dest' ! j = a ! j \<or> dest' ! j = b ! j"
    by blast
  have "RandomMixCrossOver_call uid x a b = Inr (dest', x\<lparr>mix_rng := g'\<rparr>)"
    by (simp add: RandomMixCrossOver_call_def r)
  then show ?thesis using l m assms by simp
qed

theorem RandomMixCrossOver_membership_witness:
  "\<exists>child x'. RandomMixCrossOver_call test_uid (RandomMixCrossOver_new [0, 5, 5, 0])
        [True, True, False, False] [False, True, False, True] = Inr (child, x') \<and>
     length child = 4 \<and>
     (\<forall>i<4. child ! i = [True, True, False, False] ! i \<or> child ! i = [False, True, False, True] ! i)"
proof -
  have "length [True, True, False, False] = 4" and "length [False, True, False, True] = 4"
    by simp_all
  from RandomMixCrossOver_membership [OF this] show ?thesis .
qed

text \<open>
  Claim C9. Whenever \<open>RandomSplitCrossOver\<close> or \<open>RandomMixCrossOver\<close> returns a child,
  the child has the length of the first parent \<open>a\<close>, whatever the length of \<open>b\<close>; the
  lengths of the parents are not compared.
\<close>

theorem crossover_child_length:
  "(RandomSplitCrossOver_call uid x a b = Inr (child, x') \<longrightarrow> length child = length a) \<and>
   (RandomMixCrossOver_call uid y a b = Inr (child', y') \<longrightarrow> length child' = length a)"
proof (intro conjI impI)
  assume "RandomSplitCrossOver_call uid x a b = Inr (child, x')"
  then show "length child = length a"
    by (auto simp: RandomSplitCrossOver_call_def Let_def split: prod.splits if_splits sum.splits
        dest!: copy_range_length)
next
  assume "RandomMixCrossOver_call uid y a b = Inr (child', y')"
  then show "length child' = length a"
    by (auto simp: RandomMixCrossOver_call_def Let_def split: prod.splits sum.splits
        dest!: mix_loop_length)
qed

theorem crossover_child_length_witness:
  "RandomSplitCrossOver_call test_uid (RandomSplitCrossOver_new 4 [2, 0])
      [True, True, True, True] [True, True, True] =
     Inr ([True, True, True, False], RandomSplitCrossOver_new 4 []) \<and>
   length [True, True, True, False] = length [True, True, True, True] \<and>
   RandomMixCrossOver_call test_uid (RandomMixCrossOver_new [0, 5, 0, 0])
      [True, True, True, True] [False, False] =
     Inr ([True, False, True, True], RandomMixCrossOver_new []) \<and>
   length [True, False, True, True] = length [True, True, True, True]"
proof -
  have s: "RandomSplitCrossOver_call test_uid (RandomSplitCrossOver_new 4 [2, 0])
      [True, True, True, True] [True, True, True] =
     Inr ([True, True, True, False], RandomSplitCrossOver_new 4 [])"
    by code_simp
  have m: "RandomMixCrossOver_call test_uid (RandomMixCrossOver_new [0, 5, 0, 0])
      [True, True, True, True] [False, False] =
     Inr ([True, False, True, True], RandomMixCrossOver_new [])"
    by code_simp
  from crossover_child_length [where uid = test_uid and a = "[True, True, True, True]"
      and x = "RandomSplitCrossOver_new 4 [2, 0]" and b = "[True, True, True]"
      and child = "[True, True, True, False]" and x' = "RandomSplitCrossOver_new 4 []"] s
  have "length [True, True, True, False] = length [True, True, True, True]" by blast
  moreover
  from crossover_child_length [where uid = test_uid and a = "[True, True, True, True]"
      and y = "RandomMixCrossOver_new [0, 5, 0, 0]" and b = "[False, False]"
      and child' = "[True, False, True, True]" and y' = "RandomMixCrossOver_new []"] m
  have "length [True, False, True, True] = length [True, True, True, True]" by blast
  ultimately show ?thesis using s m by blast
qed

end
